theory Spec2Isabelle
  imports Complex_Main "HOL-Library.Word" "HOL-Library.Product_Lexorder" "HOL-Library.Monad_Syntax"
begin

unbundle bit_operations_syntax

section \<open>Fixed-width unsigned integers\<close>

text \<open>
  \<^verbatim>\<open>dim_t\<close>, \<^verbatim>\<open>depth_t\<close> and \<^verbatim>\<open>GridID\<close> are \<^verbatim>\<open>uint32_t\<close> in \<^verbatim>\<open>octree.h\<close>.
  They are modelled as natural numbers with the wrap-around written out:
  \<open>u32\<close> is the conversion to 32 bits and \<open>u32_sub\<close> the wrapping subtraction.
\<close>

definition u32 :: "nat \<Rightarrow> nat" where
  "u32 x = take_bit 32 x"

definition u32_sub :: "nat \<Rightarrow> nat \<Rightarrow> nat" where
  "u32_sub a b = (u32 a + 2 ^ 32 - u32 b) mod 2 ^ 32"

text \<open>\<^verbatim>\<open>std::bit_width\<close>: the number of bits needed to write the value, 0 for 0.\<close>

fun bit_width :: "nat \<Rightarrow> nat" where
  "bit_width n = (if n = 0 then 0 else Suc (bit_width (n div 2)))"

declare bit_width.simps [simp del]

section \<open>MortonSpaceIndexing\<close>

text \<open>
  The struct is a template over \<^verbatim>\<open>DIMENSION_NO\<close>, here the parameter \<open>D\<close>
  (\<^verbatim>\<open>static_assert(0 < DIMENSION_NO && DIMENSION_NO < 64)\<close>).  A location id is a
  \<^verbatim>\<open>uint32_t\<close> below four dimensions, a \<^verbatim>\<open>uint64_t\<close> below fifteen, and a
  \<^verbatim>\<open>std::bitset<DIMENSION_NO * 4 + 1>\<close> above.  All three are modelled as natural
  numbers of \<open>LOC_BITS D\<close> bits; a left shift drops the bits that leave the width.
  (For the two integer types C++ leaves a shift by the full width or more undefined;
  \<open>loc_shl\<close> yields 0 there, as the bitset does.)
\<close>

definition IS_32BIT_LOCATION :: "nat \<Rightarrow> bool" where
  "IS_32BIT_LOCATION D = (D < 4)"

definition IS_64BIT_LOCATION :: "nat \<Rightarrow> bool" where
  "IS_64BIT_LOCATION D = (\<not> IS_32BIT_LOCATION D \<and> D < 15)"

definition IS_LINEAR_TREE :: "nat \<Rightarrow> bool" where
  "IS_LINEAR_TREE D = (IS_32BIT_LOCATION D \<or> IS_64BIT_LOCATION D)"

definition MAX_NONLINEAR_DEPTH_ID :: nat where
  "MAX_NONLINEAR_DEPTH_ID = 4"

definition LOC_BITS :: "nat \<Rightarrow> nat" where
  "LOC_BITS D = (if IS_32BIT_LOCATION D then 32
                 else if IS_64BIT_LOCATION D then 64
                 else D * MAX_NONLINEAR_DEPTH_ID + 1)"

definition CHILD_NO :: "nat \<Rightarrow> nat" where
  "CHILD_NO D = 2 ^ D"

definition CHILD_MASK :: "nat \<Rightarrow> nat" where
  "CHILD_MASK D = 2 ^ D - 1"

definition MAX_THEORETICAL_DEPTH_ID :: "nat \<Rightarrow> nat" where
  "MAX_THEORETICAL_DEPTH_ID D =
     (if IS_LINEAR_TREE D then (LOC_BITS D - 1) div D else MAX_NONLINEAR_DEPTH_ID)"

definition loc_shl :: "nat \<Rightarrow> nat \<Rightarrow> nat \<Rightarrow> nat" where
  "loc_shl D x n = take_bit (LOC_BITS D) (push_bit n x)"

definition loc_sub :: "nat \<Rightarrow> nat \<Rightarrow> nat \<Rightarrow> nat" where
  "loc_sub D a b = (a + 2 ^ LOC_BITS D - b mod 2 ^ LOC_BITS D) mod 2 ^ LOC_BITS D"

record RangeLocationMetaData =
  DepthID :: nat
  LocID :: nat
  TouchedDimensionsFlag :: nat
  LowerSegmentID :: nat

definition GetHashAtDepth :: "nat \<Rightarrow> RangeLocationMetaData \<Rightarrow> nat \<Rightarrow> nat" where
  "GetHashAtDepth D location maxDepthID =
     loc_shl D 1 (u32 (DepthID location * D))
       OR drop_bit (u32 (u32_sub maxDepthID (DepthID location) * D)) (LocID location)"

definition GetHash :: "nat \<Rightarrow> nat \<Rightarrow> nat \<Rightarrow> nat" where
  "GetHash D depth locationID = loc_shl D 1 (u32 (depth * D)) OR locationID"

definition GetRootKey :: nat where
  "GetRootKey = 1"

definition GetNoneKey :: nat where
  "GetNoneKey = 0"

definition IsValidKey :: "nat \<Rightarrow> bool" where
  "IsValidKey key = (key > 0)"

definition GetParentKey :: "nat \<Rightarrow> nat \<Rightarrow> nat" where
  "GetParentKey D key = drop_bit D key"

text \<open>
  \<^verbatim>\<open>GetDepthID\<close>.  For the integer keys it is \<^verbatim>\<open>(std::bit_width(key) - 1) / DIMENSION_NO\<close>
  in \<^verbatim>\<open>depth_t\<close>, so that key 0 gives \<open>(2^32 - 1) div D\<close>.  For bitset keys it shifts
  the key down until only the sentinel bit is left and ends in \<^verbatim>\<open>CRASH()\<close> on a bad
  key, here \<open>None\<close>.  (The test \<open>D = 0\<close> only makes the recursion total; the bitset
  branch has \<open>D \<ge> 15\<close>.)
\<close>

function GetDepthID_loop :: "nat \<Rightarrow> nat \<Rightarrow> nat \<Rightarrow> nat option" where
  "GetDepthID_loop D d key =
     (if key = 0 \<or> D = 0 then None
      else if key = 1 then Some d
      else GetDepthID_loop D (d + 1) (GetParentKey D key))"
  by pat_completeness auto
termination
proof (relation "measure (\<lambda>(D, d, key). key)")
  show "wf (measure (\<lambda>(D, d, key). key))" by simp
next
  fix D d key :: nat
  assume a: "\<not> (key = 0 \<or> D = 0)" "key \<noteq> 1"
  have "(1::nat) < 2 ^ D"
    using a by (intro one_less_power) auto
  then have "key div 2 ^ D < key"
    using a by (intro div_less_dividend) auto
  then show "((D, d + 1, GetParentKey D key), (D, d, key)) \<in> measure (\<lambda>(D, d, key). key)"
    by (simp add: GetParentKey_def drop_bit_eq_div)
qed

declare GetDepthID_loop.simps [simp del]

definition GetDepthID :: "nat \<Rightarrow> nat \<Rightarrow> nat option" where
  "GetDepthID D key =
     (if IS_LINEAR_TREE D
      then Some ((if key = 0 then 2 ^ 32 - 1 else u32 (bit_width key - 1)) div D)
      else GetDepthID_loop D 0 key)"

text \<open>
  \<^verbatim>\<open>RemoveSentinelBit\<close>.  On an integer key 0 the source shifts by \<open>-1\<close>, which is
  undefined: \<open>None\<close>.
\<close>

definition RemoveSentinelBit :: "nat \<Rightarrow> nat \<Rightarrow> nat option \<Rightarrow> nat option" where
  "RemoveSentinelBit D key depthIDOptional =
     (if IS_LINEAR_TREE D
      then (if key = 0 then None
            else Some (loc_sub D key (loc_shl D 1 (bit_width key - 1))))
      else (case (case depthIDOptional of Some d \<Rightarrow> Some d | None \<Rightarrow> GetDepthID D key) of
              None \<Rightarrow> None
            | Some depthID \<Rightarrow> Some (loc_sub D key (loc_shl D 1 (u32 (depthID * D))))))"

subsection \<open>Bit interleaving\<close>

text \<open>
  \<^verbatim>\<open>Part1By1\<close> and \<^verbatim>\<open>Part1By2\<close> are only called with two and three dimensions, where
  the location id has 32 bits: the \<^verbatim>\<open>sizeof(LocationID) == 4\<close> branches.
\<close>

definition Part1By1 :: "nat \<Rightarrow> nat" where
  "Part1By1 gridID =
    (let locationID = gridID;
         locationID = (locationID XOR u32 (push_bit 8 locationID)) AND 0x00ff00ff;
         locationID = (locationID XOR u32 (push_bit 4 locationID)) AND 0x0f0f0f0f;
         locationID = (locationID XOR u32 (push_bit 2 locationID)) AND 0x33333333;
         locationID = (locationID XOR u32 (push_bit 1 locationID)) AND 0x55555555
     in locationID)"

definition Part1By2 :: "nat \<Rightarrow> nat" where
  "Part1By2 gridID =
    (let locationID = gridID;
         locationID = (locationID XOR u32 (push_bit 16 locationID)) AND 0xff0000ff;
         locationID = (locationID XOR u32 (push_bit 8 locationID)) AND 0x0300f00f;
         locationID = (locationID XOR u32 (push_bit 4 locationID)) AND 0x030c30c3;
         locationID = (locationID XOR u32 (push_bit 2 locationID)) AND 0x09249249
     in locationID)"

text \<open>
  The general loop of \<^verbatim>\<open>Encode\<close> (the branch without BMI2).  The inner loop runs over
  the dimensions, the outer one over the bits of the grid ids while \<^verbatim>\<open>msb\<close> is not
  zero.  \<^verbatim>\<open>std::bitset::set\<close> throws on a position outside the bitset, which ends the
  \<^verbatim>\<open>noexcept\<close> function by \<^verbatim>\<open>std::terminate\<close>: \<open>None\<close>.
\<close>

fun Encode_dims :: "nat \<Rightarrow> nat list \<Rightarrow> nat \<Rightarrow> nat \<Rightarrow> nat list \<Rightarrow> nat \<Rightarrow> nat option" where
  "Encode_dims D gridID bitMask i [] locationID = Some locationID"
| "Encode_dims D gridID bitMask i (dimensionID # rest) locationID =
     (let shift = dimensionID + i * D in
      if IS_LINEAR_TREE D
      then Encode_dims D gridID bitMask i rest
             (locationID OR loc_shl D ((gridID ! dimensionID) AND bitMask) (shift - i))
      else if shift < LOC_BITS D
      then Encode_dims D gridID bitMask i rest
             (if (gridID ! dimensionID) AND bitMask \<noteq> 0
              then set_bit shift locationID else unset_bit shift locationID)
      else None)"

function Encode_levels :: "nat \<Rightarrow> nat list \<Rightarrow> nat \<Rightarrow> nat \<Rightarrow> nat \<Rightarrow> nat \<Rightarrow> nat option" where
  "Encode_levels D gridID msb bitMask i locationID =
     (if msb = 0 then Some locationID
      else (case Encode_dims D gridID bitMask i [0..<D] locationID of
              None \<Rightarrow> None
            | Some l \<Rightarrow> Encode_levels D gridID (drop_bit 1 msb) (u32 (push_bit 1 bitMask)) (i + 1) l))"
  by pat_completeness auto
termination
  by (relation "measure (\<lambda>(D, gridID, msb, bitMask, i, l). msb)") (auto simp: drop_bit_eq_div)

declare Encode_levels.simps [simp del]

definition Encode :: "nat \<Rightarrow> nat list \<Rightarrow> nat option" where
  "Encode D gridID =
    (if D = 1 then Some (gridID ! 0)
     else if D = 2
     then Some (u32 (u32 (push_bit 1 (Part1By1 (gridID ! 1))) + Part1By1 (gridID ! 0)))
     else if D = 3
     then Some (u32 (u32 (u32 (push_bit 2 (Part1By2 (gridID ! 2)))
                          + u32 (push_bit 1 (Part1By2 (gridID ! 1))))
                     + Part1By2 (gridID ! 0)))
     else Encode_levels D gridID
            (foldl (OR) (gridID ! 0) (map ((!) gridID) [1..<D])) 1 0 0)"

text \<open>
  \<^verbatim>\<open>Decode\<close> (the branch without BMI2).  The loop state is the grid-id array and the
  running \<^verbatim>\<open>shift\<close>.  The start level \<^verbatim>\<open>maxDepthID - depthID\<close> is a \<^verbatim>\<open>depth_t\<close>
  subtraction.
\<close>

fun Decode_dims :: "nat \<Rightarrow> nat \<Rightarrow> nat \<Rightarrow> nat list \<Rightarrow> nat list \<times> nat \<Rightarrow> nat list \<times> nat" where
  "Decode_dims D nodeKey examinationLevelID [] gs = gs"
| "Decode_dims D nodeKey examinationLevelID (dimensionID # rest) (gridID, shift) =
     Decode_dims D nodeKey examinationLevelID rest
       (gridID[dimensionID := (gridID ! dimensionID) OR
          (if IS_LINEAR_TREE D
           then u32 (loc_shl D (drop_bit shift nodeKey AND 1) examinationLevelID)
           else u32 (push_bit examinationLevelID (of_bool (bit nodeKey shift))))],
        u32 (shift + 1))"

function Decode_levels :: "nat \<Rightarrow> nat \<Rightarrow> nat \<Rightarrow> nat \<Rightarrow> nat list \<times> nat \<Rightarrow> nat list" where
  "Decode_levels D nodeKey maxDepthID examinationLevelID gs =
     (if examinationLevelID < maxDepthID
      then Decode_levels D nodeKey maxDepthID (examinationLevelID + 1)
             (Decode_dims D nodeKey examinationLevelID [0..<D] gs)
      else fst gs)"
  by pat_completeness auto
termination
  by (relation "measure (\<lambda>(D, nodeKey, maxDepthID, lvl, gs). maxDepthID - lvl)") auto

declare Decode_levels.simps [simp del]

definition Decode :: "nat \<Rightarrow> nat \<Rightarrow> nat \<Rightarrow> nat list option" where
  "Decode D nodeKey maxDepthID =
    (if D = 1
     then (case RemoveSentinelBit D nodeKey None of
             None \<Rightarrow> None
           | Some l \<Rightarrow> Some [u32 l])
     else (case GetDepthID D nodeKey of
             None \<Rightarrow> None
           | Some depthID \<Rightarrow>
               Some (Decode_levels D nodeKey maxDepthID (u32_sub maxDepthID depthID)
                       (replicate D 0, 0))))"

subsection \<open>Child ids and range metadata\<close>

text \<open>
  \<^verbatim>\<open>CastMortonIDToChildID\<close> is the identity on integer location ids and
  \<^verbatim>\<open>to_ullong\<close> on bitsets.  Every call modelled here passes a value masked with
  \<^verbatim>\<open>CHILD_MASK\<close>, which fits 64 bits.
\<close>

definition CastMortonIDToChildID :: "nat \<Rightarrow> nat" where
  "CastMortonIDToChildID morton = morton"

definition GetChildID :: "nat \<Rightarrow> nat \<Rightarrow> nat" where
  "GetChildID D key = CastMortonIDToChildID (key AND CHILD_MASK D)"

definition GetChildID_level :: "nat \<Rightarrow> nat \<Rightarrow> nat \<Rightarrow> nat" where
  "GetChildID_level D childNodeKey examinationLevelID =
     GetChildID D (drop_bit (u32 (D * u32_sub examinationLevelID 1)) childNodeKey)"

definition IsAllChildTouched :: "nat \<Rightarrow> nat \<Rightarrow> bool" where
  "IsAllChildTouched D touchedDimensionsFlag = (touchedDimensionsFlag = CHILD_MASK D)"

function count_levels :: "nat \<Rightarrow> nat \<Rightarrow> nat \<Rightarrow> nat" where
  "count_levels D diffLocationFlag levelID =
     (if diffLocationFlag = 0 \<or> D = 0 then levelID
      else count_levels D (drop_bit D diffLocationFlag) (levelID + 1))"
  by pat_completeness auto
termination
proof (relation "measure (\<lambda>(D, f, l). f)")
  show "wf (measure (\<lambda>(D, f, l). f))" by simp
next
  fix D f l :: nat
  assume a: "\<not> (f = 0 \<or> D = 0)"
  have "(1::nat) < 2 ^ D"
    using a by (intro one_less_power) auto
  then have "f div 2 ^ D < f"
    using a by (intro div_less_dividend) auto
  then show "((D, drop_bit D f, l + 1), (D, f, l)) \<in> measure (\<lambda>(D, f, l). f)"
    by (simp add: drop_bit_eq_div)
qed

declare count_levels.simps [simp del]

definition GetRangeLocationMetaData_loc :: "nat \<Rightarrow> nat \<Rightarrow> nat \<times> nat \<Rightarrow> RangeLocationMetaData" where
  "GetRangeLocationMetaData_loc D maxDepthID locationIDRange =
    (let dl = \<lparr>DepthID = maxDepthID, LocID = fst locationIDRange,
               TouchedDimensionsFlag = 0, LowerSegmentID = 0\<rparr>
     in if fst locationIDRange \<noteq> snd locationIDRange
        then (let locationDifference = fst locationIDRange XOR snd locationIDRange;
                  levelID = (if IS_LINEAR_TREE D
                             then u32 (bit_width locationDifference + D - 1) div D
                             else count_levels D locationDifference 0)
              in if levelID > 0
                 then (let shiftToChildSegment = u32 ((levelID - 1) * D);
                           touched = CastMortonIDToChildID
                                       (drop_bit shiftToChildSegment locationDifference AND CHILD_MASK D);
                           loc1 = drop_bit shiftToChildSegment (LocID dl);
                           lower = CastMortonIDToChildID (loc1 AND CHILD_MASK D);
                           loc2 = drop_bit D loc1;
                           loc3 = loc_shl D loc2 (shiftToChildSegment + D)
                       in \<lparr>DepthID = u32_sub (DepthID dl) levelID, LocID = loc3,
                           TouchedDimensionsFlag = touched, LowerSegmentID = lower\<rparr>)
                 else dl)
        else dl)"

definition GetRangeLocationID :: "nat \<Rightarrow> nat list \<times> nat list \<Rightarrow> (nat \<times> nat) option" where
  "GetRangeLocationID D gridIDRange =
     (case Encode D (fst gridIDRange) of
        None \<Rightarrow> None
      | Some l0 \<Rightarrow> (case Encode D (snd gridIDRange) of
                     None \<Rightarrow> None
                   | Some l1 \<Rightarrow> Some (l0, l1)))"

definition GetRangeLocationMetaData :: "nat \<Rightarrow> nat \<Rightarrow> nat list \<times> nat list \<Rightarrow> RangeLocationMetaData option" where
  "GetRangeLocationMetaData D maxDepthID gridIDRange =
     map_option (GetRangeLocationMetaData_loc D maxDepthID) (GetRangeLocationID D gridIDRange)"

definition IsLess :: "RangeLocationMetaData \<Rightarrow> RangeLocationMetaData \<Rightarrow> bool" where
  "IsLess leftLocation rightLocation =
     (LocID leftLocation < LocID rightLocation \<or>
      (LocID leftLocation = LocID rightLocation \<and> DepthID leftLocation < DepthID rightLocation))"

text \<open>One step of the shift-and-mask spreading used by \<^verbatim>\<open>Part1By1\<close> and \<^verbatim>\<open>Part1By2\<close>.\<close>

definition stage :: "nat \<Rightarrow> nat \<Rightarrow> nat \<Rightarrow> nat" where
  "stage k m l = (l XOR u32 (push_bit k l)) AND m"

subsection \<open>Cells of the grid, for stating what the range metadata mean\<close>

text \<open>
  A grid id has \<open>maxDepthID\<close> bits; the cell of depth \<open>depth\<close> that holds it is given by
  its leading \<open>depth\<close> bits.  A box, given by the grid ids of its two corners, fits in
  one cell of depth \<open>depth\<close> when the corners agree on those bits in every dimension.
  It straddles the midplane of its cell of depth \<open>depth\<close> in dimension \<open>d\<close> when
  the lower corner is in the lower half and the upper corner in the upper half, that
  is, when the next bit is 0 for the lower and 1 for the upper corner.
\<close>

definition fits_in_cell :: "nat \<Rightarrow> nat list \<times> nat list \<Rightarrow> nat \<Rightarrow> bool" where
  "fits_in_cell maxDepthID gridIDRange depth =
     (\<forall>d < length (fst gridIDRange).
        drop_bit (maxDepthID - depth) (fst gridIDRange ! d) = drop_bit (maxDepthID - depth) (snd gridIDRange ! d))"

definition straddles_midplane :: "nat \<Rightarrow> nat list \<times> nat list \<Rightarrow> nat \<Rightarrow> nat \<Rightarrow> bool" where
  "straddles_midplane maxDepthID gridIDRange depth d =
     (depth < maxDepthID \<and>
      \<not> bit (fst gridIDRange ! d) (maxDepthID - depth - 1) \<and>
      bit (snd gridIDRange ! d) (maxDepthID - depth - 1))"


section \<open>Binary64 floating point\<close>

text \<open>
  The geometry scalar of the trees is \<^verbatim>\<open>double\<close>.  A value is a real number (the numbers
  that binary64 represents are the ones that arise), the negative zero, an infinity or a
  NaN; \<open>Finite 0\<close> is the positive zero.  The arithmetic rounds to the nearest representable
  number, ties to the even significand, as the default rounding mode does.
\<close>

datatype double = Finite real | NegZero | PosInf | NegInf | NaN








definition is_nan :: "double \<Rightarrow> bool" where
  "is_nan a = (a = NaN)"






text \<open>
  The comparisons: every comparison with a NaN is false, the zeros are equal, and the
  other values are ordered as the extended real line.
\<close>

definition d_key :: "double \<Rightarrow> int \<times> real" where
  "d_key a = (case a of Finite x \<Rightarrow> (0, x) | NegZero \<Rightarrow> (0, 0) | PosInf \<Rightarrow> (1, 0)
              | NegInf \<Rightarrow> (- 1, 0) | NaN \<Rightarrow> (0, 0))"

definition d_lt :: "double \<Rightarrow> double \<Rightarrow> bool" where
  "d_lt a b = (\<not> is_nan a \<and> \<not> is_nan b \<and> d_key a < d_key b)"

definition d_le :: "double \<Rightarrow> double \<Rightarrow> bool" where
  "d_le a b = (\<not> is_nan a \<and> \<not> is_nan b \<and> d_key a \<le> d_key b)"











section \<open>The ray-box distance\<close>










subsection \<open>The slab method as the specification words it\<close>















section \<open>Bit-level facts\<close>

lemma u32_id: "x < 2 ^ 32 \<Longrightarrow> u32 x = x"
  by (simp add: u32_def take_bit_nat_eq_self_iff)

lemma bit_u32: "bit (u32 x) n \<longleftrightarrow> n < 32 \<and> bit x n"
  by (simp add: u32_def bit_simps)

lemma bit_width_eq: "2 ^ k \<le> n \<Longrightarrow> n < 2 ^ Suc k \<Longrightarrow> bit_width n = Suc k"
proof (induction k arbitrary: n)
  case 0
  then have "n = 1" by simp
  then show ?case by (simp add: bit_width.simps)
next
  case (Suc k)
  have "2 ^ k \<le> n div 2" "n div 2 < 2 ^ Suc k"
    using Suc.prems by auto
  then have "bit_width (n div 2) = Suc k" by (rule Suc.IH)
  moreover have "n \<noteq> 0" using Suc.prems by auto
  ultimately show ?case by (subst bit_width.simps) simp
qed

lemma not_bit_of_less: "x < 2 ^ k \<Longrightarrow> k \<le> j \<Longrightarrow> \<not> bit (x::nat) j"
  by (metis bit_take_bit_iff take_bit_nat_eq_self_iff not_le)

lemma bit_stage:
  "bit (stage k m l) n \<longleftrightarrow> bit m n \<and> (bit l n \<noteq> (k \<le> n \<and> n < 32 \<and> bit l (n - k)))"
  by (auto simp: stage_def u32_def bit_simps)

lemma Part1By1_stages:
  "Part1By1 x = stage 1 0x55555555 (stage 2 0x33333333 (stage 4 0x0f0f0f0f (stage 8 0x00ff00ff x)))"
  by (simp only: Part1By1_def stage_def Let_def)

lemma Part1By2_stages:
  "Part1By2 x = stage 2 0x09249249 (stage 4 0x030c30c3 (stage 8 0x0300f00f (stage 16 0xff0000ff x)))"
  by (simp only: Part1By2_def stage_def Let_def)

lemma all_less_numeral:
  "(\<forall>n<numeral k. P n) \<longleftrightarrow> P (pred_numeral k) \<and> (\<forall>n<pred_numeral k. P n)"
  by (simp add: numeral_eq_Suc All_less_Suc)

lemma Part1By1_bit:
  assumes "x < 2 ^ 16"
  shows "bit (Part1By1 x) n \<longleftrightarrow> n < 32 \<and> even n \<and> bit x (n div 2)"
proof (cases "n < 32")
  case False
  have "\<not> bit (0x55555555::nat) n"
    using False by (intro not_bit_of_less[where k = 32]) auto
  then show ?thesis using False by (simp add: Part1By1_stages bit_stage)
next
  case True
  have hi: "\<And>k. 16 \<le> k \<Longrightarrow> \<not> bit x k"
    using assms not_bit_of_less by blast
  have "\<forall>n<32. bit (Part1By1 x) n \<longleftrightarrow> even n \<and> bit x (n div 2)"
    by (simp add: all_less_numeral Part1By1_stages bit_stage hi bit_Suc_0_iff)
  then show ?thesis using True by simp
qed

lemma Part1By2_bit:
  assumes "x < 2 ^ 10"
  shows "bit (Part1By2 x) n \<longleftrightarrow> n < 30 \<and> n mod 3 = 0 \<and> bit x (n div 3)"
proof (cases "n < 32")
  case False
  have "\<not> bit (0x09249249::nat) n"
    using False by (intro not_bit_of_less[where k = 32]) auto
  then show ?thesis using False by (simp add: Part1By2_stages bit_stage)
next
  case True
  have hi: "\<And>k. 10 \<le> k \<Longrightarrow> \<not> bit x k"
    using assms not_bit_of_less by blast
  have "\<forall>n<32. bit (Part1By2 x) n \<longleftrightarrow> n < 30 \<and> n mod 3 = 0 \<and> bit x (n div 3)"
    by (simp add: all_less_numeral Part1By2_stages bit_stage hi bit_Suc_0_iff)
  then show ?thesis using True by simp
qed

lemma bit_u32_push:
  "bit (u32 (push_bit j (x::nat))) k \<longleftrightarrow> k < 32 \<and> j \<le> k \<and> bit x (k - j)"
  unfolding bit_u32 bit_push_bit_iff_nat by (rule refl)

lemma bit_add_disjoint:
  fixes x y :: nat
  assumes "\<And>k. bit x k \<longleftrightarrow> P k" "\<And>k. bit y k \<longleftrightarrow> Q k" "\<And>k. \<not> (P k \<and> Q k)"
  shows "bit (x + y) k \<longleftrightarrow> P k \<or> Q k"
proof -
  have "\<And>n. \<not> bit x n \<or> \<not> bit y n" using assms by blast
  from bit_disjunctive_add_iff[OF this] show ?thesis using assms by blast
qed

lemma Encode_2_bit:
  assumes "a < 2 ^ 15" "b < 2 ^ 15"
  shows "bit (u32 (u32 (push_bit 1 (Part1By1 b)) + Part1By1 a)) n
         \<longleftrightarrow> bit ([a, b] ! (n mod 2)) (n div 2)"
proof -
  have a16: "a < 2 ^ 16" and b16: "b < 2 ^ 16" using assms by auto
  have hia: "\<And>k. 15 \<le> k \<Longrightarrow> \<not> bit a k" and hib: "\<And>k. 15 \<le> k \<Longrightarrow> \<not> bit b k"
    using assms not_bit_of_less by blast+
  define pb where "pb = u32 (push_bit 1 (Part1By1 b))"
  define pa where "pa = Part1By1 a"
  have B: "bit pb k \<longleftrightarrow> k mod 2 = 1 \<and> bit b (k div 2)" for k
  proof -
    have "bit pb k \<longleftrightarrow> k < 32 \<and> 1 \<le> k \<and> (k - 1 < 32 \<and> even (k - 1) \<and> bit b ((k - 1) div 2))"
      unfolding pb_def bit_u32_push Part1By1_bit[OF b16] by (rule refl)
    also have "\<dots> \<longleftrightarrow> k mod 2 = 1 \<and> bit b (k div 2)"
    proof (cases "k mod 2 = 1")
      case True
      then have e: "1 \<le> k" "even (k - 1)" "(k - 1) div 2 = k div 2" by presburger+
      have "\<not> k < 32 \<Longrightarrow> \<not> bit b (k div 2)" by (rule hib) arith
      moreover have "k < 32 \<Longrightarrow> k - 1 < 32" by arith
      ultimately show ?thesis using True e by auto
    next
      case False
      then have "\<not> (1 \<le> k \<and> even (k - 1))" by presburger
      then show ?thesis using False by auto
    qed
    finally show ?thesis .
  qed
  have A: "bit pa k \<longleftrightarrow> k mod 2 = 0 \<and> bit a (k div 2)" for k
  proof -
    have "\<not> k < 32 \<Longrightarrow> \<not> bit a (k div 2)" by (rule hia) arith
    then show ?thesis unfolding pa_def Part1By1_bit[OF a16] by auto
  qed
  have S: "bit (pb + pa) k \<longleftrightarrow> (k mod 2 = 1 \<and> bit b (k div 2)) \<or> (k mod 2 = 0 \<and> bit a (k div 2))" for k
    by (rule bit_add_disjoint[OF B A]) (metis zero_neq_one)
  have "bit (u32 (pb + pa)) n \<longleftrightarrow> bit ([a, b] ! (n mod 2)) (n div 2)"
  proof -
    have c: "n mod 2 = 0 \<or> n mod 2 = 1" by presburger
    have "n < 32 \<or> \<not> bit b (n div 2)" using hib[of "n div 2"] by (cases "n < 32") auto
    moreover have "n < 32 \<or> \<not> bit a (n div 2)" using hia[of "n div 2"] by (cases "n < 32") auto
    ultimately show ?thesis using c unfolding bit_u32 S by auto
  qed
  then show ?thesis unfolding pa_def pb_def .
qed

lemma Encode_3_bit:
  assumes "a < 2 ^ 10" "b < 2 ^ 10" "c < 2 ^ 10"
  shows "bit (u32 (u32 (u32 (push_bit 2 (Part1By2 c)) + u32 (push_bit 1 (Part1By2 b))) + Part1By2 a)) n
         \<longleftrightarrow> bit ([a, b, c] ! (n mod 3)) (n div 3)"
proof -
  have hia: "\<And>k. 10 \<le> k \<Longrightarrow> \<not> bit a k" and hib: "\<And>k. 10 \<le> k \<Longrightarrow> \<not> bit b k"
    and hic: "\<And>k. 10 \<le> k \<Longrightarrow> \<not> bit c k"
    using assms not_bit_of_less by blast+
  define pc where "pc = u32 (push_bit 2 (Part1By2 c))"
  define pb where "pb = u32 (push_bit 1 (Part1By2 b))"
  define pa where "pa = Part1By2 a"
  have A: "bit pa k \<longleftrightarrow> k mod 3 = 0 \<and> bit a (k div 3)" for k
  proof -
    have "\<not> k < 30 \<Longrightarrow> \<not> bit a (k div 3)" by (rule hia) arith
    then show ?thesis unfolding pa_def Part1By2_bit[OF assms(1)] by auto
  qed
  have B: "bit pb k \<longleftrightarrow> k mod 3 = 1 \<and> bit b (k div 3)" for k
  proof -
    have "bit pb k \<longleftrightarrow> k < 32 \<and> 1 \<le> k \<and> (k - 1 < 30 \<and> (k - 1) mod 3 = 0 \<and> bit b ((k - 1) div 3))"
      unfolding pb_def bit_u32_push Part1By2_bit[OF assms(2)] by (rule refl)
    also have "\<dots> \<longleftrightarrow> k mod 3 = 1 \<and> bit b (k div 3)"
    proof (cases "k mod 3 = 1")
      case True
      then have e: "1 \<le> k" "(k - 1) mod 3 = 0" "(k - 1) div 3 = k div 3" by presburger+
      have "\<not> k - 1 < 30 \<Longrightarrow> \<not> bit b (k div 3)" by (rule hib) arith
      moreover have "k - 1 < 30 \<Longrightarrow> k < 32" by arith
      ultimately show ?thesis using True e by auto
    next
      case False
      then have "\<not> (1 \<le> k \<and> (k - 1) mod 3 = 0)" by presburger
      then show ?thesis using False by auto
    qed
    finally show ?thesis .
  qed
  have C: "bit pc k \<longleftrightarrow> k mod 3 = 2 \<and> bit c (k div 3)" for k
  proof -
    have "bit pc k \<longleftrightarrow> k < 32 \<and> 2 \<le> k \<and> (k - 2 < 30 \<and> (k - 2) mod 3 = 0 \<and> bit c ((k - 2) div 3))"
      unfolding pc_def bit_u32_push Part1By2_bit[OF assms(3)] by (rule refl)
    also have "\<dots> \<longleftrightarrow> k mod 3 = 2 \<and> bit c (k div 3)"
    proof (cases "k mod 3 = 2")
      case True
      then have e: "2 \<le> k" "(k - 2) mod 3 = 0" "(k - 2) div 3 = k div 3" by presburger+
      have "\<not> k - 2 < 30 \<Longrightarrow> \<not> bit c (k div 3)" by (rule hic) arith
      moreover have "k - 2 < 30 \<Longrightarrow> k < 32" by arith
      ultimately show ?thesis using True e by auto
    next
      case False
      then have "\<not> (2 \<le> k \<and> (k - 2) mod 3 = 0)" by presburger
      then show ?thesis using False by auto
    qed
    finally show ?thesis .
  qed
  have S1: "bit (pc + pb) k \<longleftrightarrow> (k mod 3 = 2 \<and> bit c (k div 3)) \<or> (k mod 3 = 1 \<and> bit b (k div 3))" for k
    by (rule bit_add_disjoint[OF C B]) simp
  have lt: "\<not> k < 32 \<Longrightarrow> \<not> bit a (k div 3) \<and> \<not> bit b (k div 3) \<and> \<not> bit c (k div 3)" for k
  proof -
    assume "\<not> k < 32"
    then have "10 \<le> k div 3" by arith
    then show ?thesis using hia hib hic by blast
  qed
  have S1': "bit (u32 (pc + pb)) k \<longleftrightarrow> (k mod 3 = 2 \<and> bit c (k div 3)) \<or> (k mod 3 = 1 \<and> bit b (k div 3))" for k
    using lt[of k] unfolding bit_u32 S1 by auto
  have S2: "bit (u32 (pc + pb) + pa) k \<longleftrightarrow>
      ((k mod 3 = 2 \<and> bit c (k div 3)) \<or> (k mod 3 = 1 \<and> bit b (k div 3))) \<or> (k mod 3 = 0 \<and> bit a (k div 3))" for k
    by (rule bit_add_disjoint[OF S1' A]) auto
  have "bit (u32 (u32 (pc + pb) + pa)) n \<longleftrightarrow> bit ([a, b, c] ! (n mod 3)) (n div 3)"
  proof -
    have c: "n mod 3 = 0 \<or> n mod 3 = 1 \<or> n mod 3 = 2" by presburger
    show ?thesis
    proof (cases "n < 32")
      case True
      then show ?thesis using c unfolding bit_u32 S2 by (auto simp: numeral_2_eq_2)
    next
      case False
      then show ?thesis using c lt[OF False] unfolding bit_u32 S2 by (auto simp: numeral_2_eq_2)
    qed
  qed
  then show ?thesis unfolding pa_def pb_def pc_def .
qed

lemma LOC_BITS_ge32: "IS_LINEAR_TREE D \<Longrightarrow> 32 \<le> LOC_BITS D"
  by (auto simp: LOC_BITS_def IS_LINEAR_TREE_def)

lemma bit_loc_shl: "bit (loc_shl D x s) n \<longleftrightarrow> n < LOC_BITS D \<and> s \<le> n \<and> bit x (n - s)"
  unfolding loc_shl_def bit_take_bit_iff bit_push_bit_iff_nat by (rule refl)

lemma bit_and_pow2: "bit ((x::nat) AND 2 ^ i) k \<longleftrightarrow> k = i \<and> bit x i"
  by (auto simp: bit_simps)

lemma and_pow2_eq_0: "(x::nat) AND 2 ^ i = 0 \<longleftrightarrow> \<not> bit x i"
  by (auto simp: bit_eq_iff bit_and_pow2)

lemma Encode_dims_bit:
  assumes "0 < D" "distinct ds" "\<forall>d\<in>set ds. \<not> bit loc (d + i * D) \<and> d + i * D < LOC_BITS D"
  shows "\<exists>loc'. Encode_dims D g (2 ^ i) i ds loc = Some loc' \<and>
           (\<forall>n. bit loc' n \<longleftrightarrow> bit loc n \<or> (\<exists>d\<in>set ds. n = d + i * D \<and> bit (g ! d) i))"
  using assms(2,3)
proof (induction ds arbitrary: loc)
  case Nil
  then show ?case by simp
next
  case (Cons d ds)
  have dpos: "d + i * D < LOC_BITS D" and nb: "\<not> bit loc (d + i * D)" using Cons.prems by auto
  have ile: "i \<le> i * D" using assms(1) by simp
  define loc1 where "loc1 =
     (if IS_LINEAR_TREE D then loc OR loc_shl D ((g ! d) AND 2 ^ i) (d + i * D - i)
      else if (g ! d) AND 2 ^ i \<noteq> 0 then set_bit (d + i * D) loc else unset_bit (d + i * D) loc)"
  have b1: "bit loc1 n \<longleftrightarrow> bit loc n \<or> (n = d + i * D \<and> bit (g ! d) i)" for n
  proof (cases "IS_LINEAR_TREE D")
    case True
    have "d + i * D - i \<le> n \<and> n - (d + i * D - i) = i \<longleftrightarrow> n = d + i * D"
      using ile by arith
    then show ?thesis using True dpos
      unfolding loc1_def by (auto simp: bit_or_iff bit_loc_shl bit_and_pow2)
  next
    case False
    then show ?thesis using nb
      unfolding loc1_def by (auto simp: and_pow2_eq_0 bit_set_bit_iff bit_unset_bit_iff)
  qed
  have step: "Encode_dims D g (2 ^ i) i (d # ds) loc = Encode_dims D g (2 ^ i) i ds loc1"
    using dpos unfolding loc1_def by (simp add: Let_def)
  have pre: "\<forall>d'\<in>set ds. \<not> bit loc1 (d' + i * D) \<and> d' + i * D < LOC_BITS D"
    using Cons.prems by (auto simp: b1)
  from Cons.IH[OF _ pre] Cons.prems(1)
  obtain loc' where l: "Encode_dims D g (2 ^ i) i ds loc1 = Some loc'"
    "\<forall>n. bit loc' n \<longleftrightarrow> bit loc1 n \<or> (\<exists>d\<in>set ds. n = d + i * D \<and> bit (g ! d) i)"
    by auto
  show ?case
    unfolding step using l by (auto simp: b1)
qed

lemma bit_foldl_or:
  "bit (foldl (OR) (a::nat) xs) k \<longleftrightarrow> bit a k \<or> (\<exists>x\<in>set xs. bit x k)"
  by (induction xs arbitrary: a) (auto simp: bit_or_iff)

lemma Encode_levels_bit:
  assumes D: "0 < D" and m32: "m \<le> 32" and mD: "m * D \<le> LOC_BITS D"
    and G: "\<And>k. bit G k \<longleftrightarrow> (\<exists>d<D. bit (g ! d) k)" and Gm: "G < 2 ^ m"
    and inv: "\<And>n. bit loc n \<longleftrightarrow> n div D < i \<and> bit (g ! (n mod D)) (n div D)"
    and mask: "bitMask = u32 (2 ^ i)"
  shows "\<exists>loc'. Encode_levels D g (drop_bit i G) bitMask i loc = Some loc' \<and>
           (\<forall>n. bit loc' n \<longleftrightarrow> bit (g ! (n mod D)) (n div D))"
  using inv mask
proof (induction "m - i" arbitrary: i loc bitMask)
  case 0
  then have "m \<le> i" by simp
  then have "drop_bit i G = 0"
    using Gm by (metis drop_bit_eq_div div_less less_le_trans power_increasing one_le_numeral)
  then have z: "drop_bit i G = 0" .
  have "\<not> bit (g ! (n mod D)) (n div D)" if "\<not> n div D < i" for n
  proof
    assume b: "bit (g ! (n mod D)) (n div D)"
    have "n mod D < D" using D by simp
    with b have "bit G (n div D)" using G by blast
    moreover have "m \<le> n div D" using that \<open>m \<le> i\<close> by simp
    ultimately show False using Gm not_bit_of_less by blast
  qed
  then show ?case using z "0.prems"(1) by (subst Encode_levels.simps) auto
next
  case (Suc k)
  show ?case
  proof (cases "drop_bit i G = 0")
    case True
    have "\<not> bit (g ! (n mod D)) (n div D)" if "\<not> n div D < i" for n
    proof
      assume b: "bit (g ! (n mod D)) (n div D)"
      have "n mod D < D" using D by simp
      with b have "bit G (n div D)" using G by blast
      then have "bit (drop_bit i G) (n div D - i)" using that by (simp add: bit_drop_bit_eq)
      then show False using True by simp
    qed
    then show ?thesis using True Suc.prems(1) by (subst Encode_levels.simps) auto
  next
    case False
    have im: "i < m" using Suc.hyps(2) by simp
    then have i32: "i < 32" using m32 by simp
    have "(2::nat) ^ i < 2 ^ 32" using i32 by (intro power_strict_increasing) auto
    then have bm: "bitMask = 2 ^ i" using Suc.prems(2) by (simp add: u32_id)
    have pre: "\<forall>d\<in>set [0..<D]. \<not> bit loc (d + i * D) \<and> d + i * D < LOC_BITS D"
    proof
      fix d assume "d \<in> set [0..<D]"
      then have d: "d < D" by simp
      then have "(d + i * D) div D = i" by simp
      then have "\<not> bit loc (d + i * D)" using Suc.prems(1) by simp
      moreover have "d + i * D < Suc i * D" using d by simp
      then have "d + i * D < m * D" using im
        by (meson Suc_leI less_le_trans mult_le_mono1)
      ultimately show "\<not> bit loc (d + i * D) \<and> d + i * D < LOC_BITS D" using mD by simp
    qed
    from Encode_dims_bit[OF D _ pre, of g]
    obtain loc1 where l1: "Encode_dims D g (2 ^ i) i [0..<D] loc = Some loc1"
      "\<forall>n. bit loc1 n \<longleftrightarrow> bit loc n \<or> (\<exists>d\<in>set [0..<D]. n = d + i * D \<and> bit (g ! d) i)"
      by auto
    have inv1: "bit loc1 n \<longleftrightarrow> n div D < Suc i \<and> bit (g ! (n mod D)) (n div D)" for n
    proof -
      have "(\<exists>d\<in>set [0..<D]. n = d + i * D \<and> bit (g ! d) i) \<longleftrightarrow> n div D = i \<and> bit (g ! (n mod D)) i"
      proof
        assume "\<exists>d\<in>set [0..<D]. n = d + i * D \<and> bit (g ! d) i"
        then obtain d where "d < D" "n = d + i * D" "bit (g ! d) i" by auto
        then show "n div D = i \<and> bit (g ! (n mod D)) i" by simp
      next
        assume a: "n div D = i \<and> bit (g ! (n mod D)) i"
        have "n mod D < D" using D by simp
        moreover have "n = n mod D + i * D" using a by (metis mod_div_mult_eq)
        ultimately show "\<exists>d\<in>set [0..<D]. n = d + i * D \<and> bit (g ! d) i" using a by auto
      qed
      then show ?thesis using l1(2) Suc.prems(1) by (auto simp: less_Suc_eq)
    qed
    have mk: "u32 (push_bit 1 bitMask) = u32 (2 ^ Suc i)"
      unfolding bm by (simp add: push_bit_eq_mult mult.commute)
    have dd: "drop_bit 1 (drop_bit i G) = drop_bit (Suc i) G"
      by (simp add: drop_bit_drop_bit)
    have k: "k = m - Suc i" using Suc.hyps(2) by simp
    from Suc.hyps(1)[OF k inv1 mk]
    obtain loc' where "Encode_levels D g (drop_bit (Suc i) G) (u32 (push_bit 1 bitMask)) (Suc i) loc1 = Some loc'"
      "\<forall>n. bit loc' n \<longleftrightarrow> bit (g ! (n mod D)) (n div D)" by auto
    then show ?thesis
      using False l1(1) by (subst Encode_levels.simps) (simp add: bm dd)
  qed
qed

lemma MAX_DEPTH_bits:
  assumes "0 < D" "D < 64" "m \<le> MAX_THEORETICAL_DEPTH_ID D"
  shows "m * D < LOC_BITS D" "m < 32"
proof -
  show "m * D < LOC_BITS D"
  proof (cases "IS_LINEAR_TREE D")
    case True
    then have "m \<le> (LOC_BITS D - 1) div D" using assms by (simp add: MAX_THEORETICAL_DEPTH_ID_def)
    then have "m * D \<le> (LOC_BITS D - 1) div D * D" by simp
    also have "\<dots> \<le> LOC_BITS D - 1" by simp
    finally show ?thesis using LOC_BITS_ge32[OF True] by simp
  next
    case False
    then have "m \<le> 4" using assms by (simp add: MAX_THEORETICAL_DEPTH_ID_def MAX_NONLINEAR_DEPTH_ID_def)
    then have "m * D \<le> D * 4" by (simp add: mult.commute)
    moreover have "LOC_BITS D = D * 4 + 1" using False
      by (simp add: LOC_BITS_def IS_LINEAR_TREE_def MAX_NONLINEAR_DEPTH_ID_def)
    ultimately show ?thesis by linarith
  qed
  show "m < 32"
  proof (cases "IS_LINEAR_TREE D")
    case True
    then have "m \<le> (LOC_BITS D - 1) div D" using assms by (simp add: MAX_THEORETICAL_DEPTH_ID_def)
    also have "\<dots> \<le> LOC_BITS D - 1" by simp
    finally have a: "m \<le> LOC_BITS D - 1" .
    show ?thesis
    proof (cases "IS_32BIT_LOCATION D")
      case True
      then show ?thesis using a by (simp add: LOC_BITS_def)
    next
      case False
      then have "4 \<le> D" by (simp add: IS_32BIT_LOCATION_def)
      then have "63 div D \<le> 63 div 4" by (intro div_le_mono2) auto
      moreover have "m \<le> 63 div D"
        using \<open>m \<le> (LOC_BITS D - 1) div D\<close> False True
        by (simp add: LOC_BITS_def IS_LINEAR_TREE_def)
      ultimately show ?thesis by simp
    qed
  next
    case False
    then show ?thesis using assms by (simp add: MAX_THEORETICAL_DEPTH_ID_def MAX_NONLINEAR_DEPTH_ID_def)
  qed
qed

lemma Encode_interleaved:
  assumes D: "0 < D" "D < 64" and m: "m \<le> MAX_THEORETICAL_DEPTH_ID D"
    and g: "length g = D" "\<forall>x\<in>set g. x < 2 ^ m"
  shows "\<exists>loc. Encode D (g::nat list) = Some loc \<and> (\<forall>n. bit loc n \<longleftrightarrow> bit (g ! (n mod D)) (n div D))"
proof -
  have gm: "g ! d < 2 ^ m" if "d < D" for d using g that by simp
  consider "D = 1" | "D = 2" | "D = 3" | "4 \<le> D" using D by arith
  then show ?thesis
  proof cases
    case 1
    then show ?thesis by (simp add: Encode_def)
  next
    case 2
    then have "m \<le> 15"
      using m by (simp add: MAX_THEORETICAL_DEPTH_ID_def IS_LINEAR_TREE_def IS_32BIT_LOCATION_def LOC_BITS_def)
    then have "(2::nat) ^ m \<le> 2 ^ 15" by (intro power_increasing) auto
    then have a: "g ! 0 < 2 ^ 15" "g ! 1 < 2 ^ 15" using gm[of 0] gm[of 1] 2 by auto
    have g2: "g = [g ! 0, g ! 1]" using g(1) 2
      by (intro nth_equalityI) (auto simp: less_Suc_eq numeral_2_eq_2)
    have "bit (u32 (u32 (push_bit 1 (Part1By1 (g ! 1))) + Part1By1 (g ! 0))) n
         \<longleftrightarrow> bit (g ! (n mod 2)) (n div 2)" for n
      using Encode_2_bit[OF a, of n] g2 by metis
    then show ?thesis using 2 by (simp add: Encode_def del: One_nat_def)
  next
    case 3
    then have "m \<le> 10"
      using m by (simp add: MAX_THEORETICAL_DEPTH_ID_def IS_LINEAR_TREE_def IS_32BIT_LOCATION_def LOC_BITS_def)
    then have "(2::nat) ^ m \<le> 2 ^ 10" by (intro power_increasing) auto
    then have a: "g ! 0 < 2 ^ 10" "g ! 1 < 2 ^ 10" "g ! 2 < 2 ^ 10" using gm[of 0] gm[of 1] gm[of 2] 3 by auto
    have g3: "g = [g ! 0, g ! 1, g ! 2]" using g(1) 3
      by (intro nth_equalityI) (auto simp: less_Suc_eq numeral_3_eq_3 numeral_2_eq_2)
    have "bit (u32 (u32 (u32 (push_bit 2 (Part1By2 (g ! 2))) + u32 (push_bit 1 (Part1By2 (g ! 1)))) + Part1By2 (g ! 0))) n
         \<longleftrightarrow> bit (g ! (n mod 3)) (n div 3)" for n
      using Encode_3_bit[OF a, of n] g3 by metis
    then show ?thesis using 3 by (simp add: Encode_def del: One_nat_def)
  next
    case 4
    define G where "G = foldl (OR) (g ! 0) (map ((!) g) [1..<D])"
    have Gb: "bit G k \<longleftrightarrow> (\<exists>d<D. bit (g ! d) k)" for k
    proof -
      have "bit G k \<longleftrightarrow> bit (g ! 0) k \<or> (\<exists>d\<in>{1..<D}. bit (g ! d) k)"
        unfolding G_def bit_foldl_or by auto
      also have "\<dots> \<longleftrightarrow> (\<exists>d<D. bit (g ! d) k)"
      proof
        assume "bit (g ! 0) k \<or> (\<exists>d\<in>{1..<D}. bit (g ! d) k)"
        then show "\<exists>d<D. bit (g ! d) k" using D(1) by auto
      next
        assume "\<exists>d<D. bit (g ! d) k"
        then obtain d where d: "d < D" "bit (g ! d) k" by auto
        then show "bit (g ! 0) k \<or> (\<exists>d\<in>{1..<D}. bit (g ! d) k)"
          by (cases "d = 0") auto
      qed
      finally show ?thesis .
    qed
    have Gm: "G < 2 ^ m"
    proof -
      have "take_bit m G = G"
      proof (rule bit_eqI)
        fix n
        have "n < m" if "bit G n"
        proof (rule ccontr)
          assume "\<not> n < m"
          then have "m \<le> n" by simp
          from that obtain d where "d < D" "bit (g ! d) n" using Gb by auto
          then show False using gm[of d] not_bit_of_less[OF _ \<open>m \<le> n\<close>] by blast
        qed
        then show "bit (take_bit m G) n \<longleftrightarrow> bit G n"
          by (auto simp: bit_take_bit_iff)
      qed
      then show ?thesis by (simp add: take_bit_nat_eq_self_iff)
    qed
    have mb: "m * D \<le> LOC_BITS D" "m \<le> 32" using MAX_DEPTH_bits[OF D m] by auto
    from Encode_levels_bit[OF D(1) mb(2) mb(1) Gb Gm, of 0 0 1]
    obtain loc' where "Encode_levels D g (drop_bit 0 G) 1 0 0 = Some loc'"
      "\<forall>n. bit loc' n \<longleftrightarrow> bit (g ! (n mod D)) (n div D)"
      by (auto simp: u32_id)
    then show ?thesis using 4 by (simp add: Encode_def G_def)
  qed
qed

lemma interleaved_less:
  assumes "0 < D" "\<forall>n. bit loc n \<longleftrightarrow> bit ((g::nat list) ! (n mod D)) (n div D)" "length g = D" "\<forall>x\<in>set g. x < 2 ^ m"
  shows "(loc::nat) < 2 ^ (m * D)"
proof -
  have "take_bit (m * D) loc = loc"
  proof (rule bit_eqI)
    fix n
    have "\<not> bit loc n" if "\<not> n < m * D"
    proof -
      have "m \<le> n div D" using that assms(1)
        by (metis div_mult_self_is_m div_le_mono not_less)
      moreover have "g ! (n mod D) < 2 ^ m" using assms by simp
      ultimately show ?thesis using assms(2) not_bit_of_less by blast
    qed
    then show "bit (take_bit (m * D) loc) n \<longleftrightarrow> bit loc n"
      by (auto simp: bit_take_bit_iff)
  qed
  then show ?thesis by (simp add: take_bit_nat_eq_self_iff)
qed

lemma bit_and_1_drop: "bit (drop_bit s (key::nat) AND 1) b \<longleftrightarrow> b = 0 \<and> bit key s"
proof -
  have "bit (drop_bit s key AND 1) b \<longleftrightarrow> bit (drop_bit s key) b \<and> b = 0"
    by (simp only: bit_and_iff bit_1_iff)
  also have "\<dots> \<longleftrightarrow> b = 0 \<and> bit key s"
    by (auto simp: bit_drop_bit_eq)
  finally show ?thesis .
qed

lemma Decode_upd_bit:
  assumes "lvl < 32"
  shows "bit (if IS_LINEAR_TREE D
           then u32 (loc_shl D (drop_bit s key AND 1) lvl)
           else u32 (push_bit lvl (of_bool (bit key s)))) b \<longleftrightarrow> b = lvl \<and> bit key s"
proof (cases "IS_LINEAR_TREE D")
  case True
  have l: "lvl < LOC_BITS D" using LOC_BITS_ge32[OF True] assms by simp
  have "bit (u32 (loc_shl D (drop_bit s key AND 1) lvl)) b \<longleftrightarrow> b = lvl \<and> bit key s"
    unfolding bit_u32 bit_loc_shl bit_and_1_drop using l assms by auto
  then show ?thesis using True by (simp only: if_True)
next
  case False
  have "bit (u32 (push_bit lvl (of_bool (bit key s)::nat))) b \<longleftrightarrow> b = lvl \<and> bit key s"
    unfolding bit_u32 bit_push_bit_iff_nat bit_of_bool_iff using assms by auto
  then show ?thesis using False by (simp only: if_False)
qed

lemma Decode_dims_upt:
  assumes "lvl < 32"
  shows "length grid = D \<Longrightarrow> s + (D - a) < 2 ^ 32 \<Longrightarrow> a \<le> D \<Longrightarrow>
     \<exists>grid'. Decode_dims D key lvl [a..<D] (grid, s) = (grid', s + (D - a)) \<and> length grid' = D \<and>
          (\<forall>j<D. \<forall>b. bit (grid' ! j) b \<longleftrightarrow> bit (grid ! j) b \<or> (a \<le> j \<and> b = lvl \<and> bit key (s + (j - a))))"
proof (induction "D - a" arbitrary: a grid s)
  case 0
  then show ?case by auto
next
  case (Suc n)
  then have aD: "a < D" by simp
  define upd where "upd = (if IS_LINEAR_TREE D
           then u32 (loc_shl D (drop_bit s key AND 1) lvl)
           else u32 (push_bit lvl (of_bool (bit key s))))"
  define grid1 where "grid1 = grid[a := (grid ! a) OR upd]"
  have ub: "bit upd b \<longleftrightarrow> b = lvl \<and> bit key s" for b
    unfolding upd_def by (rule Decode_upd_bit[OF assms(1)])
  have s1: "u32 (s + 1) = s + 1" using Suc.prems(2) aD by (intro u32_id) simp
  have step: "Decode_dims D key lvl [a..<D] (grid, s) = Decode_dims D key lvl [Suc a..<D] (grid1, s + 1)"
    using aD s1 unfolding grid1_def upd_def by (simp add: upt_conv_Cons)
  have n: "n = D - Suc a" using Suc.hyps(2) by simp
  have l1: "length grid1 = D" using Suc.prems(1) by (simp add: grid1_def)
  have s2: "s + 1 + (D - Suc a) < 2 ^ 32" using Suc.prems(2) aD by simp
  have saD: "Suc a \<le> D" using aD by simp
  have b1: "bit (grid1 ! j) b \<longleftrightarrow> bit (grid ! j) b \<or> (j = a \<and> b = lvl \<and> bit key s)" if "j < D" for j b
    using that Suc.prems(1) unfolding grid1_def by (cases "j = a") (auto simp: bit_or_iff ub)
  from Suc.hyps(1)[OF n l1 s2 saD]
  obtain grid' where g': "Decode_dims D key lvl [Suc a..<D] (grid1, s + 1) = (grid', s + 1 + (D - Suc a))"
      "length grid' = D"
      "\<forall>j<D. \<forall>b. bit (grid' ! j) b \<longleftrightarrow> bit (grid1 ! j) b \<or> (Suc a \<le> j \<and> b = lvl \<and> bit key (s + 1 + (j - Suc a)))"
    by blast
  have "s + 1 + (D - Suc a) = s + (D - a)" using aD by simp
  moreover have "bit (grid' ! j) b \<longleftrightarrow> bit (grid ! j) b \<or> (a \<le> j \<and> b = lvl \<and> bit key (s + (j - a)))" if "j < D" for j b
  proof -
    have "Suc a \<le> j \<Longrightarrow> s + 1 + (j - Suc a) = s + (j - a)" by simp
    then show ?thesis using g'(3) b1 that
      by (cases "j = a") (auto simp: Suc_le_eq)
  qed
  ultimately show ?case unfolding step using g'(1,2) by auto
qed

lemma Decode_levels_bit:
  assumes "m \<le> 32" "m * D < 2 ^ 32"
  shows "length grid = D \<Longrightarrow> lvl \<le> m \<Longrightarrow>
    length (Decode_levels D key m lvl (grid, lvl * D)) = D \<and>
    (\<forall>j<D. \<forall>b. bit (Decode_levels D key m lvl (grid, lvl * D) ! j) b \<longleftrightarrow>
        bit (grid ! j) b \<or> (lvl \<le> b \<and> b < m \<and> bit key (b * D + j)))"
proof (induction "m - lvl" arbitrary: lvl grid)
  case 0
  then have "lvl = m" by simp
  then show ?case using 0 by (subst (1 2) Decode_levels.simps) auto
next
  case (Suc n)
  then have lm: "lvl < m" by simp
  then have l32: "lvl < 32" using assms(1) by simp
  have "lvl * D + D = Suc lvl * D" by simp
  also have "\<dots> \<le> m * D" using lm by (intro mult_le_mono1) simp
  finally have sD: "lvl * D + (D - 0) < 2 ^ 32" using assms(2) by simp
  from Decode_dims_upt[OF l32 Suc.prems(1) sD, of key]
  obtain grid1 where g1: "Decode_dims D key lvl [0..<D] (grid, lvl * D) = (grid1, lvl * D + (D - 0))"
    "length grid1 = D"
    "\<forall>j<D. \<forall>b. bit (grid1 ! j) b \<longleftrightarrow> bit (grid ! j) b \<or> (0 \<le> j \<and> b = lvl \<and> bit key (lvl * D + (j - 0)))"
    by blast
  have e: "lvl * D + (D - 0) = (lvl + 1) * D" by simp
  have n: "n = m - (lvl + 1)" using Suc.hyps(2) by simp
  have lm1: "lvl + 1 \<le> m" using lm by simp
  note IH = Suc.hyps(1)[OF n g1(2) lm1]
  have step: "Decode_levels D key m lvl (grid, lvl * D) = Decode_levels D key m (lvl + 1) (grid1, (lvl + 1) * D)"
    using lm g1(1) unfolding e by (subst Decode_levels.simps) simp
  have g1': "bit (grid1 ! j) b \<longleftrightarrow> bit (grid ! j) b \<or> (b = lvl \<and> bit key (lvl * D + j))" if "j < D" for j b
    using g1(3) that by simp
  have "bit (Decode_levels D key m (lvl + 1) (grid1, (lvl + 1) * D) ! j) b \<longleftrightarrow>
        bit (grid ! j) b \<or> (lvl \<le> b \<and> b < m \<and> bit key (b * D + j))" if "j < D" for j b
  proof -
    have "bit (Decode_levels D key m (lvl + 1) (grid1, (lvl + 1) * D) ! j) b \<longleftrightarrow>
        bit (grid1 ! j) b \<or> (lvl + 1 \<le> b \<and> b < m \<and> bit key (b * D + j))"
      using IH that by blast
    also have "\<dots> \<longleftrightarrow> bit (grid ! j) b \<or> (lvl \<le> b \<and> b < m \<and> bit key (b * D + j))"
      unfolding g1'[OF that] using lm by (cases "b = lvl") auto
    finally show ?thesis .
  qed
  then show ?case unfolding step using IH by blast
qed

lemma bit_width_pow2_plus: "x < 2 ^ k \<Longrightarrow> bit_width (2 ^ k + x) = Suc k"
  by (rule bit_width_eq) auto

lemma GetHash_eq:
  assumes "m * D < LOC_BITS D" "m * D < 2 ^ 32" "loc < 2 ^ (m * D)"
  shows "GetHash D m loc = 2 ^ (m * D) + loc"
proof -
  have "loc_shl D 1 (u32 (m * D)) = 2 ^ (m * D)"
    using assms(1,2) by (simp add: loc_shl_def u32_id take_bit_nat_eq_self_iff push_bit_eq_mult)
  moreover have "(2::nat) ^ (m * D) OR loc = 2 ^ (m * D) + loc"
  proof -
    have "\<And>n. \<not> bit ((2::nat) ^ (m * D)) n \<or> \<not> bit loc n"
      using not_bit_of_less[OF assms(3)] by (auto simp: bit_exp_iff)
    then show ?thesis by (rule disjunctive_add[symmetric])
  qed
  ultimately show ?thesis by (simp add: GetHash_def)
qed

lemma GetDepthID_loop_sentinel:
  assumes "0 < D"
  shows "x < 2 ^ (k * D) \<Longrightarrow> GetDepthID_loop D d (2 ^ (k * D) + x) = Some (d + k)"
proof (induction k arbitrary: d x)
  case 0
  then show ?case by (subst GetDepthID_loop.simps) (simp add: assms)
next
  case (Suc k)
  have "(2::nat) ^ D \<le> 2 ^ (Suc k * D)" by (intro power_increasing) auto
  moreover have "(1::nat) < 2 ^ D" using assms by (intro one_less_power) auto
  ultimately have big: "1 < (2::nat) ^ (Suc k * D) + x" by linarith
  have "(2 ^ (Suc k * D) + x) div 2 ^ D = 2 ^ (k * D) + x div 2 ^ D"
  proof -
    have "(2::nat) ^ (Suc k * D) = 2 ^ (k * D) * 2 ^ D" by (simp add: power_add)
    then show ?thesis by simp
  qed
  moreover have "x div 2 ^ D < 2 ^ (k * D)"
  proof -
    have "x < 2 ^ (k * D) * 2 ^ D" using Suc.prems by (simp add: power_add mult.commute)
    then show ?thesis by (simp add: less_mult_imp_div_less)
  qed
  ultimately have "GetDepthID_loop D (d + 1) (GetParentKey D (2 ^ (Suc k * D) + x)) = Some (d + 1 + k)"
    using Suc.IH[of "x div 2 ^ D" "d + 1"] by (simp add: GetParentKey_def drop_bit_eq_div)
  then show ?case using big assms by (subst GetDepthID_loop.simps) simp
qed

lemma GetDepthID_sentinel:
  assumes "0 < D" "m * D < 2 ^ 32" "x < 2 ^ (m * D)"
  shows "GetDepthID D (2 ^ (m * D) + x) = Some m"
proof (cases "IS_LINEAR_TREE D")
  case True
  have "bit_width (2 ^ (m * D) + x) = Suc (m * D)" by (rule bit_width_pow2_plus[OF assms(3)])
  then show ?thesis using True assms by (simp add: GetDepthID_def u32_id)
next
  case False
  then show ?thesis using GetDepthID_loop_sentinel[OF assms(1,3), of 0] by (simp add: GetDepthID_def)
qed

text \<open>
  Claim C3.  For every valid tuple of grid ids \<open>g\<close> (one id per dimension, each
  below \<open>2 ^ maxDepth\<close>, with \<open>maxDepth\<close> at most the representation limit
  \<open>MAX_THEORETICAL_DEPTH_ID\<close>), \<^verbatim>\<open>Encode\<close> returns a location id, and decoding the
  key made of that location id and the sentinel bit at depth \<open>maxDepth\<close> gives \<open>g\<close>
  back: \<open>Decode (GetHash maxDepth (Encode g)) maxDepth = g\<close>.
\<close>

theorem C3_Encode_Decode_roundtrip:
  assumes D: "0 < D" "D < 64" and m: "m \<le> MAX_THEORETICAL_DEPTH_ID D"
    and g: "length g = D" "\<forall>x\<in>set g. x < 2 ^ m"
  shows "\<exists>loc. Encode D g = Some loc \<and> Decode D (GetHash D m loc) m = Some g"
proof -
  from Encode_interleaved[OF D m g] obtain loc where
    enc: "Encode D g = Some loc" and il: "\<forall>n. bit loc n \<longleftrightarrow> bit (g ! (n mod D)) (n div D)"
    by blast
  have lt: "loc < 2 ^ (m * D)" by (rule interleaved_less[OF D(1) il g])
  have mb: "m * D < LOC_BITS D" "m < 32" using MAX_DEPTH_bits[OF D m] by auto
  have "m * D < 32 * 64" using mb(2) D(2) by (intro mult_strict_mono) auto
  then have mD32: "m * D < 2 ^ 32" by simp
  have key: "GetHash D m loc = 2 ^ (m * D) + loc" by (rule GetHash_eq[OF mb(1) mD32 lt])
  have kb: "bit (2 ^ (m * D) + loc) n \<longleftrightarrow> n = m * D \<or> bit loc n" for n
  proof -
    have "\<And>n. \<not> bit ((2::nat) ^ (m * D)) n \<or> \<not> bit loc n"
      using not_bit_of_less[OF lt] by (auto simp: bit_exp_iff)
    from bit_disjunctive_add_iff[OF this] show ?thesis by (auto simp: bit_exp_iff)
  qed
  have "Decode D (2 ^ (m * D) + loc) m = Some g"
  proof (cases "D = 1")
    case True
    have lin: "IS_LINEAR_TREE D" using True by (simp add: IS_LINEAR_TREE_def IS_32BIT_LOCATION_def)
    have LB: "LOC_BITS D = 32" using True by (simp add: LOC_BITS_def IS_32BIT_LOCATION_def)
    have lt': "loc < 2 ^ m" using lt True by simp
    have "(2::nat) ^ m < 2 ^ 32" using mb(2) by (intro power_strict_increasing) auto
    then have l32: "loc < 2 ^ 32" "2 ^ m + loc < 2 ^ 32 + 2 ^ 32" using lt' by auto
    have bw: "bit_width (2 ^ m + loc) = Suc m" by (rule bit_width_pow2_plus[OF lt'])
    have sh: "loc_shl D 1 m = 2 ^ m"
      using mb(2) LB by (simp add: loc_shl_def take_bit_nat_eq_self_iff push_bit_eq_mult)
    have "loc_sub D (2 ^ m + loc) (2 ^ m) = loc"
    proof -
      have "(2::nat) ^ m mod 2 ^ 32 = 2 ^ m" using \<open>(2::nat) ^ m < 2 ^ 32\<close> by simp
      then show ?thesis using l32 by (simp add: loc_sub_def LB)
    qed
    then have "RemoveSentinelBit D (2 ^ m + loc) None = Some loc"
      using lin bw sh by (simp add: RemoveSentinelBit_def)
    moreover have "g = [loc]"
    proof -
      have "g ! 0 = loc" using il True by (auto simp: bit_eq_iff)
      then show ?thesis using g(1) True by (cases g) auto
    qed
    ultimately show ?thesis using True l32(1) by (simp add: Decode_def u32_id)
  next
    case False
    have dep: "GetDepthID D (2 ^ (m * D) + loc) = Some m" by (rule GetDepthID_sentinel[OF D(1) mD32 lt])
    have m32: "m \<le> 32" using mb(2) by simp
    define res where "res = Decode_levels D (2 ^ (m * D) + loc) m 0 (replicate D 0, 0 * D)"
    have r: "length res = D"
      "\<forall>j<D. \<forall>b. bit (res ! j) b \<longleftrightarrow> bit (replicate D (0::nat) ! j) b \<or> (0 \<le> b \<and> b < m \<and> bit (2 ^ (m * D) + loc) (b * D + j))"
      using Decode_levels_bit[OF m32 mD32, where grid = "replicate D 0" and lvl = 0 and key = "2 ^ (m * D) + loc"]
      unfolding res_def by auto
    have "res = g"
    proof (rule nth_equalityI)
      show "length res = length g" using r(1) g(1) by simp
    next
      fix j assume "j < length res"
      then have j: "j < D" using r(1) by simp
      show "res ! j = g ! j"
      proof (rule bit_eqI)
        fix b
        have "b * D + j \<noteq> m * D" if "b < m"
        proof -
          have "b * D + j < Suc b * D" using j by simp
          also have "\<dots> \<le> m * D" using that by (intro mult_le_mono1) simp
          finally show ?thesis by simp
        qed
        moreover have "(b * D + j) mod D = j" "(b * D + j) div D = b" using j by auto
        moreover have "\<not> b < m \<Longrightarrow> \<not> bit (g ! j) b"
          using g j not_bit_of_less[of "g ! j" m b] by auto
        ultimately show "bit (res ! j) b \<longleftrightarrow> bit (g ! j) b"
          using r(2) j il by (auto simp: kb)
      qed
    qed
    moreover have "u32_sub m m = 0" using mb(2) by (simp add: u32_sub_def)
    ultimately show ?thesis using False dep by (simp add: Decode_def res_def)
  qed
  then show ?thesis using enc key by simp
qed

theorem C3_Encode_Decode_roundtrip_witness:
  "(0::nat) < 2 \<and> (2::nat) < 64 \<and> 3 \<le> MAX_THEORETICAL_DEPTH_ID 2 \<and> length [5, 3::nat] = 2 \<and>
   (5::nat) < 2 ^ 3 \<and> (3::nat) < 2 ^ 3 \<and>
   (\<exists>loc. Encode 2 [5, 3] = Some loc \<and> Decode 2 (GetHash 2 3 loc) 3 = Some [5, 3])"
proof -
  have h: "3 \<le> MAX_THEORETICAL_DEPTH_ID 2"
    by (simp add: MAX_THEORETICAL_DEPTH_ID_def IS_LINEAR_TREE_def IS_32BIT_LOCATION_def LOC_BITS_def)
  have g: "\<forall>x\<in>set [5, 3::nat]. x < 2 ^ 3" by simp
  from C3_Encode_Decode_roundtrip[of 2 3 "[5, 3]", OF _ _ h _ g] h g show ?thesis by simp
qed

lemma bit_width_0: "bit_width 0 = 0"
  by (subst bit_width.simps) simp

lemma bit_width_le_iff: "bit_width x \<le> n \<longleftrightarrow> x < 2 ^ n"
proof (induction x arbitrary: n rule: bit_width.induct)
  case (1 x)
  show ?case
  proof (cases "x = 0")
    case True
    then show ?thesis by (simp add: bit_width_0)
  next
    case False
    show ?thesis
    proof (cases n)
      case 0
      then show ?thesis using False by (subst bit_width.simps) simp
    next
      case (Suc k)
      have "bit_width (x div 2) \<le> k \<longleftrightarrow> x div 2 < 2 ^ k" using 1[OF False] .
      moreover have "x div 2 < 2 ^ k \<longleftrightarrow> x < 2 ^ Suc k" by auto
      ultimately show ?thesis using False Suc by (subst bit_width.simps) simp
    qed
  qed
qed

lemma bit_width_less: "x < 2 ^ bit_width x"
  using bit_width_le_iff[of x "bit_width x"] by simp

lemma bit_width_pos: "0 < x \<Longrightarrow> 0 < bit_width x"
  by (subst bit_width.simps) simp

lemma bit_width_ge: "0 < x \<Longrightarrow> 2 ^ (bit_width x - 1) \<le> x"
proof -
  assume x: "0 < x"
  have "\<not> bit_width x \<le> bit_width x - 1" using bit_width_pos[OF x] by simp
  then show ?thesis unfolding bit_width_le_iff by simp
qed

lemma bit_width_top_bit: "0 < x \<Longrightarrow> bit x (bit_width x - 1)"
proof -
  assume x: "0 < x"
  define w where "w = bit_width x - 1"
  have w: "bit_width x = Suc w" using bit_width_pos[OF x] by (simp add: w_def)
  have "2 ^ w \<le> x" using bit_width_ge[OF x] unfolding w_def .
  moreover have "x < 2 ^ Suc w" using bit_width_less[of x] unfolding w .
  ultimately have "x div 2 ^ w = 1"
    by (intro div_nat_eqI) simp_all
  then have "bit x w" by (simp add: bit_iff_odd)
  then show ?thesis unfolding w_def .
qed

lemma bit_width_drop_bit: "bit_width (drop_bit k x) = bit_width x - k"
proof (rule antisym)
  have "drop_bit k x < 2 ^ (bit_width x - k)"
  proof (cases "k \<le> bit_width x")
    case True
    have "x < 2 ^ (bit_width x - k) * 2 ^ k" using bit_width_less[of x] True by (simp flip: power_add)
    then show ?thesis by (simp add: drop_bit_eq_div less_mult_imp_div_less)
  next
    case False
    then have "x < 2 ^ k"
      using bit_width_less[of x] by (meson less_le_trans nat_le_linear one_le_numeral power_increasing)
    then show ?thesis by (simp add: drop_bit_eq_div)
  qed
  then show "bit_width (drop_bit k x) \<le> bit_width x - k" by (simp add: bit_width_le_iff)
next
  have "x div 2 ^ k < 2 ^ bit_width (x div 2 ^ k)" by (rule bit_width_less)
  then have "x < 2 ^ bit_width (x div 2 ^ k) * 2 ^ k"
    by (simp add: div_less_iff_less_mult)
  then have "x < 2 ^ (bit_width (drop_bit k x) + k)" by (simp add: power_add drop_bit_eq_div)
  then have "bit_width x \<le> bit_width (drop_bit k x) + k" by (simp add: bit_width_le_iff)
  then show "bit_width x - k \<le> bit_width (drop_bit k x)" by simp
qed

lemma count_levels_eq:
  assumes "0 < D"
  shows "count_levels D x l = l + (bit_width x + D - 1) div D"
proof (induction D x l rule: count_levels.induct)
  case (1 D x l)
  show ?case
  proof (cases "x = 0 \<or> D = 0")
    case True
    have "(D - Suc 0) div D = 0" by (cases D) auto
    with True show ?thesis
      by (subst count_levels.simps) (auto simp: bit_width_0)
  next
    case False
    then have D: "0 < D" and x: "0 < x" by auto
    have w: "0 < bit_width x" by (rule bit_width_pos[OF x])
    have IH: "count_levels D (drop_bit D x) (l + 1) = l + 1 + (bit_width (drop_bit D x) + D - 1) div D"
      using 1[OF False] .
    have "(bit_width x - D + D - 1) div D + 1 = (bit_width x + D - 1) div D"
    proof (cases "D \<le> bit_width x")
      case True
      then have "bit_width x + D - 1 = (bit_width x - D + D - 1) + D" using D by simp
      then show ?thesis using D by (metis div_add_self2 less_numeral_extra(3))
    next
      case False
      then have "bit_width x - D + D - 1 < D" "bit_width x + D - 1 < 2 * D" "D \<le> bit_width x + D - 1"
        using w D by auto
      then have "(bit_width x - D + D - 1) div D = 0" "(bit_width x + D - 1) div D = 1"
        by (auto simp: div_nat_eqI)
      then show ?thesis by simp
    qed
    then show ?thesis using False IH by (subst count_levels.simps) (simp add: bit_width_drop_bit)
  qed
qed

lemma drop_bit_eq_iff_bits:
  "drop_bit k (x::nat) = drop_bit k y \<longleftrightarrow> (\<forall>b\<ge>k. bit x b = bit y b)"
proof
  assume e: "drop_bit k x = drop_bit k y"
  show "\<forall>b\<ge>k. bit x b = bit y b"
  proof (intro allI impI)
    fix b assume "k \<le> b"
    then have "bit x b = bit (drop_bit k x) (b - k)" "bit y b = bit (drop_bit k y) (b - k)"
      by (simp_all add: bit_drop_bit_eq)
    then show "bit x b = bit y b" using e by simp
  qed
next
  assume a: "\<forall>b\<ge>k. bit x b = bit y b"
  show "drop_bit k x = drop_bit k y"
    by (rule bit_eqI) (simp add: bit_drop_bit_eq a)
qed

lemma ordered_differing_bit:
  fixes x y :: nat
  assumes "x \<le> y" "\<forall>b>i. bit x b = bit y b" "bit x i \<noteq> bit y i"
  shows "\<not> bit x i \<and> bit y i"
proof (rule ccontr)
  assume "\<not> (\<not> bit x i \<and> bit y i)"
  then have b: "bit x i" "\<not> bit y i" using assms(3) by auto
  have e: "drop_bit (Suc i) x = drop_bit (Suc i) y"
    unfolding drop_bit_eq_iff_bits using assms(2) by (simp add: Suc_le_eq)
  have h: "drop_bit (Suc i) z = drop_bit i z div 2" for z :: nat
  proof -
    have "drop_bit (Suc i) z = drop_bit 1 (drop_bit i z)" by (simp only: drop_bit_drop_bit) simp
    then show ?thesis by (simp add: drop_bit_eq_div)
  qed
  have "odd (drop_bit i x)" "even (drop_bit i y)"
    using b by (simp_all add: bit_iff_odd_drop_bit)
  then have "drop_bit i x = 2 * (drop_bit i x div 2) + 1" "drop_bit i y = 2 * (drop_bit i y div 2)"
    by (simp_all add: odd_two_times_div_two_succ)
  then have "drop_bit i x = 2 * drop_bit (Suc i) x + 1" "drop_bit i y = 2 * drop_bit (Suc i) y"
    unfolding h by simp_all
  then have "drop_bit i y < drop_bit i x" using e by simp
  moreover have "drop_bit i x \<le> drop_bit i y"
    using assms(1) by (simp add: drop_bit_eq_div div_le_mono)
  ultimately show False by simp
qed


lemma bit_CHILD_MASK: "bit (CHILD_MASK D) d \<longleftrightarrow> d < D"
  unfolding CHILD_MASK_def mask_eq_exp_minus_1[symmetric] by (simp add: bit_mask_iff)

lemma wrap_sub_le:
  fixes a b N :: nat
  assumes "b \<le> a" "a < N"
  shows "(a + N - b) mod N = a - b"
proof -
  have e: "a + N - b = (a - b) + N" using assms(1) by linarith
  have l: "a - b < N" using assms by linarith
  show ?thesis unfolding e mod_add_self2 using l by (rule mod_less)
qed

lemma u32_sub_le: "b \<le> a \<Longrightarrow> a < 2 ^ 32 \<Longrightarrow> u32_sub a b = a - b"
proof -
  assume a: "b \<le> a" "a < 2 ^ 32"
  have "b < 2 ^ 32" using a by (rule le_less_trans)
  then have "u32 a = a" "u32 b = b" using a(2) by (simp_all only: u32_id)
  then show ?thesis unfolding u32_sub_def using wrap_sub_le[OF a] by (simp only:)
qed

lemma GetRangeLocationMetaData_levels:
  assumes D: "0 < D" "D < 64" and m: "m \<le> MAX_THEORETICAL_DEPTH_ID D"
    and lo: "length gmin = D" "\<forall>x\<in>set gmin. x < 2 ^ m"
    and hi: "length gmax = D" "\<forall>x\<in>set gmax. x < 2 ^ m"
    and enc: "Encode D gmin = Some locMin" "Encode D gmax = Some locMax"
    and ne: "locMin \<noteq> locMax"
  defines "L \<equiv> (bit_width (locMin XOR locMax) + D - 1) div D"
  shows "1 \<le> L" "L \<le> m"
    "GetRangeLocationMetaData_loc D m (locMin, locMax) =
       \<lparr>DepthID = m - L,
        LocID = loc_shl D (drop_bit D (drop_bit ((L - 1) * D) locMin)) ((L - 1) * D + D),
        TouchedDimensionsFlag = drop_bit ((L - 1) * D) (locMin XOR locMax) AND CHILD_MASK D,
        LowerSegmentID = drop_bit ((L - 1) * D) locMin AND CHILD_MASK D\<rparr>"
    "\<exists>d<D. bit (gmin ! d) (L - 1) \<noteq> bit (gmax ! d) (L - 1)"
    "\<forall>d<D. \<forall>b>L - 1. bit (gmin ! d) b = bit (gmax ! d) b"
    "\<forall>d<D. bit (locMin XOR locMax) ((L - 1) * D + d) \<longleftrightarrow> bit (gmin ! d) (L - 1) \<noteq> bit (gmax ! d) (L - 1)"
proof -
  define diff where "diff = locMin XOR locMax"
  define w where "w = bit_width diff"
  from Encode_interleaved[OF D m lo] enc(1)
  have bmin: "\<And>n. bit locMin n \<longleftrightarrow> bit (gmin ! (n mod D)) (n div D)" by auto
  from Encode_interleaved[OF D m hi] enc(2)
  have bmax: "\<And>n. bit locMax n \<longleftrightarrow> bit (gmax ! (n mod D)) (n div D)" by auto
  have ltmin: "locMin < 2 ^ (m * D)" using interleaved_less[OF D(1) _ lo] bmin by blast
  have ltmax: "locMax < 2 ^ (m * D)" using interleaved_less[OF D(1) _ hi] bmax by blast
  have bd: "bit diff n \<longleftrightarrow> bit (gmin ! (n mod D)) (n div D) \<noteq> bit (gmax ! (n mod D)) (n div D)" for n
    unfolding diff_def by (simp add: bit_xor_iff bmin bmax)
  have dpos: "0 < diff"
  proof (rule ccontr)
    assume "\<not> 0 < diff"
    then have "\<And>n. \<not> bit (locMin XOR locMax) n" by (simp add: diff_def)
    then have "locMin = locMax" by (intro bit_eqI) (simp add: bit_xor_iff)
    then show False using ne by simp
  qed
  have dlt: "diff < 2 ^ (m * D)"
  proof -
    have "\<not> bit diff n" if "m * D \<le> n" for n
      using not_bit_of_less[OF ltmin that] not_bit_of_less[OF ltmax that]
      by (simp add: diff_def bit_xor_iff)
    then have "bit (take_bit (m * D) diff) n = bit diff n" for n
      by (cases "n < m * D") (auto simp: bit_take_bit_iff)
    then have "take_bit (m * D) diff = diff"
      by (rule bit_eqI)
    then show ?thesis by (simp add: take_bit_nat_eq_self_iff)
  qed
  have w1: "1 \<le> w" using bit_width_pos[OF dpos] by (simp add: w_def)
  have wm: "w \<le> m * D" using dlt by (simp add: w_def bit_width_le_iff)
  have Lw: "L = (w + D - 1) div D" by (simp add: L_def w_def diff_def)
  have mb: "m * D < LOC_BITS D" "m < 32" using MAX_DEPTH_bits[OF D m] by auto
  have mD2048: "m * D < 32 * 64" using mb(2) D(2) by (intro mult_strict_mono) auto
  then have mD32: "m * D < 2 ^ 32" by simp
  show L1: "1 \<le> L"
  proof -
    have "D \<le> w + D - 1" using w1 by simp
    then have "D div D \<le> (w + D - 1) div D" by (rule div_le_mono)
    then show ?thesis using D(1) by (simp add: Lw)
  qed
  show Lm: "L \<le> m"
  proof -
    have "w + D - 1 < m * D + D" using wm D(1) by simp
    then have "w + D - 1 < Suc m * D" by simp
    then have "(w + D - 1) div D < Suc m" using D(1) by (simp add: less_mult_imp_div_less)
    then show ?thesis by (simp add: Lw)
  qed
  define p where "p = w - 1"
  have pbit: "bit diff p" using bit_width_top_bit[OF dpos] by (simp add: p_def w_def)
  have pL: "p div D = L - 1"
  proof -
    have "w + D - 1 = p + D" using w1 by (simp add: p_def)
    then have "L = (p + D) div D" by (simp add: Lw)
    then show ?thesis using D(1) by simp
  qed
  have above: "\<not> bit diff n" if "w \<le> n" for n
    using not_bit_of_less[OF bit_width_less[of diff] that[unfolded w_def]] .
  show "\<exists>d<D. bit (gmin ! d) (L - 1) \<noteq> bit (gmax ! d) (L - 1)"
    using pbit D(1) unfolding bd pL by (intro exI[of _ "p mod D"]) simp
  show hi_eq: "\<forall>d<D. \<forall>b>L - 1. bit (gmin ! d) b = bit (gmax ! d) b"
  proof (intro allI impI)
    fix d b assume d: "d < D" and b: "L - 1 < b"
    have "p < (p div D + 1) * D" using D(1) dividend_less_div_times[of D p] by (simp add: mult.commute)
    also have "\<dots> \<le> b * D" using b pL by (intro mult_le_mono1) simp
    finally have "w \<le> b * D + d" using w1 by (simp add: p_def)
    from above[OF this] show "bit (gmin ! d) b = bit (gmax ! d) b"
      using d by (simp add: bd)
  qed
  show "\<forall>d<D. bit (locMin XOR locMax) ((L - 1) * D + d) \<longleftrightarrow> bit (gmin ! d) (L - 1) \<noteq> bit (gmax ! d) (L - 1)"
    using bd unfolding diff_def by simp
  have lvl: "(if IS_LINEAR_TREE D then u32 (bit_width (locMin XOR locMax) + D - 1) div D
              else count_levels D (locMin XOR locMax) 0) = L"
  proof (cases "IS_LINEAR_TREE D")
    case True
    have "w + D - 1 < 2 ^ 32" using wm mD2048 D(2) by simp
    then show ?thesis using True by (simp add: L_def u32_id w_def diff_def)
  next
    case False
    then show ?thesis by (simp add: count_levels_eq[OF D(1)] L_def)
  qed
  have sh: "u32 ((L - 1) * D) = (L - 1) * D"
  proof -
    have "(L - 1) * D \<le> m * D" using Lm by (intro mult_le_mono1) simp
    then show ?thesis using mD32 by (intro u32_id) linarith
  qed
  have sub: "u32_sub m L = m - L" using Lm mb(2) by (intro u32_sub_le) simp_all
  have Lpos: "0 < L" using L1 by simp
  show "GetRangeLocationMetaData_loc D m (locMin, locMax) =
       \<lparr>DepthID = m - L,
        LocID = loc_shl D (drop_bit D (drop_bit ((L - 1) * D) locMin)) ((L - 1) * D + D),
        TouchedDimensionsFlag = drop_bit ((L - 1) * D) (locMin XOR locMax) AND CHILD_MASK D,
        LowerSegmentID = drop_bit ((L - 1) * D) locMin AND CHILD_MASK D\<rparr>"
    unfolding GetRangeLocationMetaData_loc_def fst_conv snd_conv Let_def lvl sh sub CastMortonIDToChildID_def
    using ne Lpos by (simp add: sub)
qed

lemma interleaved_inj:
  assumes "0 < D" "length (g::nat list) = D" "length h = D"
    and "\<forall>n. bit (loc::nat) n \<longleftrightarrow> bit (g ! (n mod D)) (n div D)"
    and "\<forall>n. bit loc n \<longleftrightarrow> bit (h ! (n mod D)) (n div D)"
  shows "g = h"
proof (rule nth_equalityI)
  show "length g = length h" using assms by simp
next
  fix d assume "d < length g"
  then have d: "d < D" using assms by simp
  show "g ! d = h ! d"
  proof (rule bit_eqI)
    fix b
    have "(b * D + d) mod D = d" "(b * D + d) div D = b" using d by auto
    then show "bit (g ! d) b \<longleftrightarrow> bit (h ! d) b"
      using assms(4,5) by metis
  qed
qed

text \<open>
  Claim C4.  For every box whose two corners have grid ids within the resolution
  \<open>2 ^ maxDepth\<close> (lower corner below the upper one in every dimension),
  \<^verbatim>\<open>GetRangeLocationMetaData\<close> returns a record whose \<open>DepthID\<close> is the largest depth
  at which the box fits in one cell, and whose \<open>TouchedDimensionsFlag\<close> has bit \<open>d\<close>
  set exactly when the box straddles the midplane of that cell in dimension \<open>d\<close>.
  When the two encoded corners are equal the depth is \<open>maxDepth\<close> and the flag is 0;
  otherwise the number of levels between the depth and \<open>maxDepth\<close> is
  \<open>bit_width (locMin XOR locMax)\<close> divided by the dimension and rounded up.
\<close>

theorem C4_GetRangeLocationMetaData:
  assumes D: "0 < D" "D < 64" and m: "m \<le> MAX_THEORETICAL_DEPTH_ID D"
    and lo: "length gmin = D" "\<forall>x\<in>set gmin. x < 2 ^ m"
    and hi: "length gmax = D" "\<forall>x\<in>set gmax. x < 2 ^ m"
    and ord: "\<forall>d<D. gmin ! d \<le> gmax ! d"
  shows "\<exists>md locMin locMax.
     Encode D gmin = Some locMin \<and> Encode D gmax = Some locMax \<and>
     GetRangeLocationMetaData D m (gmin, gmax) = Some md \<and>
     DepthID md \<le> m \<and>
     fits_in_cell m (gmin, gmax) (DepthID md) \<and>
     (\<forall>k\<le>m. fits_in_cell m (gmin, gmax) k \<longrightarrow> k \<le> DepthID md) \<and>
     (\<forall>d<D. bit (TouchedDimensionsFlag md) d \<longleftrightarrow> straddles_midplane m (gmin, gmax) (DepthID md) d) \<and>
     (locMin = locMax \<longrightarrow> DepthID md = m \<and> TouchedDimensionsFlag md = 0) \<and>
     (locMin \<noteq> locMax \<longrightarrow> m - DepthID md = (bit_width (locMin XOR locMax) + D - 1) div D)"
proof -
  from Encode_interleaved[OF D m lo] obtain locMin where
    e1: "Encode D gmin = Some locMin" and b1: "\<forall>n. bit locMin n \<longleftrightarrow> bit (gmin ! (n mod D)) (n div D)" by blast
  from Encode_interleaved[OF D m hi] obtain locMax where
    e2: "Encode D gmax = Some locMax" and b2: "\<forall>n. bit locMax n \<longleftrightarrow> bit (gmax ! (n mod D)) (n div D)" by blast
  define md where "md = GetRangeLocationMetaData_loc D m (locMin, locMax)"
  have g: "GetRangeLocationMetaData D m (gmin, gmax) = Some md"
    by (simp add: GetRangeLocationMetaData_def GetRangeLocationID_def e1 e2 md_def)
  have props: "DepthID md \<le> m \<and>
     fits_in_cell m (gmin, gmax) (DepthID md) \<and>
     (\<forall>k\<le>m. fits_in_cell m (gmin, gmax) k \<longrightarrow> k \<le> DepthID md) \<and>
     (\<forall>d<D. bit (TouchedDimensionsFlag md) d \<longleftrightarrow> straddles_midplane m (gmin, gmax) (DepthID md) d) \<and>
     (locMin = locMax \<longrightarrow> DepthID md = m \<and> TouchedDimensionsFlag md = 0) \<and>
     (locMin \<noteq> locMax \<longrightarrow> m - DepthID md = (bit_width (locMin XOR locMax) + D - 1) div D)"
  proof (cases "locMin = locMax")
    case True
    then have md: "md = \<lparr>DepthID = m, LocID = locMin, TouchedDimensionsFlag = 0, LowerSegmentID = 0\<rparr>"
      by (simp add: md_def GetRangeLocationMetaData_loc_def)
    have "gmin = gmax"
      using interleaved_inj[OF D(1) lo(1) hi(1) b1] b2 True by simp
    then show ?thesis using True
      by (simp add: md fits_in_cell_def straddles_midplane_def)
  next
    case False
    define L where "L = (bit_width (locMin XOR locMax) + D - 1) div D"
    note lv = GetRangeLocationMetaData_levels[OF D m lo hi e1 e2 False, folded L_def]
    have md: "DepthID md = m - L"
      "TouchedDimensionsFlag md = drop_bit ((L - 1) * D) (locMin XOR locMax) AND CHILD_MASK D"
      unfolding md_def lv(3) by simp_all
    have L: "1 \<le> L" "L \<le> m" using lv(1,2) .
    have fit: "fits_in_cell m (gmin, gmax) k \<longleftrightarrow> k \<le> m - L" if "k \<le> m" for k
    proof
      assume f: "fits_in_cell m (gmin, gmax) k"
      show "k \<le> m - L"
      proof (rule ccontr)
        assume "\<not> k \<le> m - L"
        then have "m - k \<le> L - 1" using L that by linarith
        moreover from lv(4) obtain d where d: "d < D" "bit (gmin ! d) (L - 1) \<noteq> bit (gmax ! d) (L - 1)" by blast
        moreover have "drop_bit (m - k) (gmin ! d) = drop_bit (m - k) (gmax ! d)"
          using f d(1) lo(1) by (simp add: fits_in_cell_def)
        ultimately show False unfolding drop_bit_eq_iff_bits by blast
      qed
    next
      assume "k \<le> m - L"
      then have "L - 1 < m - k" using L that by linarith
      then have "\<forall>d<D. \<forall>b\<ge>m - k. bit (gmin ! d) b = bit (gmax ! d) b"
        using lv(5) by (meson less_le_trans)
      then show "fits_in_cell m (gmin, gmax) k"
        using lo(1) by (simp add: fits_in_cell_def drop_bit_eq_iff_bits)
    qed
    have touched: "bit (TouchedDimensionsFlag md) d \<longleftrightarrow> straddles_midplane m (gmin, gmax) (DepthID md) d"
      if d: "d < D" for d
    proof -
      have "bit (TouchedDimensionsFlag md) d \<longleftrightarrow> bit (locMin XOR locMax) ((L - 1) * D + d)"
        unfolding md(2) bit_and_iff bit_CHILD_MASK bit_drop_bit_eq using d by simp
      also have "\<dots> \<longleftrightarrow> bit (gmin ! d) (L - 1) \<noteq> bit (gmax ! d) (L - 1)"
        using lv(6) d by blast
      also have "\<dots> \<longleftrightarrow> \<not> bit (gmin ! d) (L - 1) \<and> bit (gmax ! d) (L - 1)"
        using ordered_differing_bit[of "gmin ! d" "gmax ! d" "L - 1"] ord lv(5) d by blast
      also have "\<dots> \<longleftrightarrow> straddles_midplane m (gmin, gmax) (DepthID md) d"
      proof -
        have "m - L < m" "m - (m - L) - 1 = L - 1" using L by simp_all
        then show ?thesis by (simp add: straddles_midplane_def md(1))
      qed
      finally show ?thesis .
    qed
    have "m - (m - L) = L" using L by simp
    then show ?thesis
      using False fit touched L by (simp add: md(1) L_def)
  qed
  show ?thesis using e1 e2 g props by blast
qed


theorem C4_GetRangeLocationMetaData_witness:
  "GetRangeLocationMetaData 2 3 ([1, 1], [2, 1]) =
     Some \<lparr>DepthID = 1, LocID = 0, TouchedDimensionsFlag = 1, LowerSegmentID = 0\<rparr> \<and>
   fits_in_cell 3 ([1, 1], [2, 1]) 1 \<and>
   straddles_midplane 3 ([1, 1], [2, 1]) 1 0 \<and>
   \<not> straddles_midplane 3 ([1, 1], [2, 1]) 1 1"
proof -
  have h: "3 \<le> MAX_THEORETICAL_DEPTH_ID 2"
    by (simp add: MAX_THEORETICAL_DEPTH_ID_def IS_LINEAR_TREE_def IS_32BIT_LOCATION_def LOC_BITS_def)
  have lo: "\<forall>x\<in>set [1, 1::nat]. x < 2 ^ 3" and hi: "\<forall>x\<in>set [2, 1::nat]. x < 2 ^ 3" by simp_all
  have ord: "\<forall>d<2. [1, 1::nat] ! d \<le> [2, 1] ! d" by (simp add: less_Suc_eq numeral_2_eq_2)
  have e1: "Encode 2 [1, 1] = Some 3" and e2: "Encode 2 [2, 1] = Some 6"
    by (simp_all add: Encode_def Part1By1_def u32_def)
  have bw: "bit_width 5 = 3" using bit_width_eq[of 2 5] by simp
  have r: "GetRangeLocationID 2 ([1, 1], [2, 1]) = Some (3, 6)"
    unfolding GetRangeLocationID_def fst_conv snd_conv e1 e2 by simp
  have x: "(3::nat) XOR 6 = 5" by simp
  have l: "GetRangeLocationMetaData_loc 2 3 (3, 6) =
     \<lparr>DepthID = 1, LocID = 0, TouchedDimensionsFlag = 1, LowerSegmentID = 0\<rparr>"
    unfolding GetRangeLocationMetaData_loc_def Let_def fst_conv snd_conv x bw
    by (simp add: IS_LINEAR_TREE_def IS_32BIT_LOCATION_def u32_def u32_sub_def CastMortonIDToChildID_def
        CHILD_MASK_def loc_shl_def LOC_BITS_def)
  have v: "GetRangeLocationMetaData 2 3 ([1, 1], [2, 1]) =
     Some \<lparr>DepthID = 1, LocID = 0, TouchedDimensionsFlag = 1, LowerSegmentID = 0\<rparr>"
    by (simp only: GetRangeLocationMetaData_def r l option.map)
  from C4_GetRangeLocationMetaData[of 2 3 "[1, 1]" "[2, 1]", OF _ _ h _ lo _ hi ord]
  obtain md where
    "GetRangeLocationMetaData 2 3 ([1, 1], [2, 1]) = Some md"
    "fits_in_cell 3 ([1, 1], [2, 1]) (DepthID md)"
    "\<forall>d<2. bit (TouchedDimensionsFlag md) d \<longleftrightarrow> straddles_midplane 3 ([1, 1], [2, 1]) (DepthID md) d"
    by auto
  then show ?thesis using v by (auto simp: less_Suc_eq numeral_2_eq_2 bit_Suc_0_iff)
qed

text \<open>
  Claim C5 says that \<^verbatim>\<open>IsLess\<close> compares by location id first and, at equal location
  ids, puts the deeper value first.  The code compares the depths with \<open><\<close>, so at
  equal location ids the value of smaller depth comes first: with location id 5 on both
  sides, depth 1 is less than depth 2 and not the other way round.
\<close>

theorem C5_IsLess_counterexample:
  "IsLess \<lparr>DepthID = 1, LocID = 5, TouchedDimensionsFlag = 0, LowerSegmentID = 0\<rparr>
          \<lparr>DepthID = 2, LocID = 5, TouchedDimensionsFlag = 0, LowerSegmentID = 0\<rparr> \<and>
   \<not> IsLess \<lparr>DepthID = 2, LocID = 5, TouchedDimensionsFlag = 0, LowerSegmentID = 0\<rparr>
            \<lparr>DepthID = 1, LocID = 5, TouchedDimensionsFlag = 0, LowerSegmentID = 0\<rparr>"
  by (simp add: IsLess_def)

text \<open>
  Claim C5, amended.  \<^verbatim>\<open>IsLess\<close> is the lexicographic order on the pairs of location
  id and depth: it compares by location id first and, at equal location ids, puts the
  shallower value (the smaller \<open>DepthID\<close>) first.
\<close>

theorem C5_IsLess_lexicographic:
  "IsLess l r \<longleftrightarrow> (LocID l, DepthID l) < (LocID r, DepthID r)"
  by (auto simp: IsLess_def less_prod_def)

section \<open>Properties of the ray-box distance\<close>

subsection \<open>Comparisons of binary64 values\<close>






lemma not_d_le_iff: "\<not> is_nan a \<Longrightarrow> \<not> is_nan b \<Longrightarrow> \<not> d_le a b \<longleftrightarrow> d_lt b a"
  by (auto simp: d_le_def d_lt_def)

lemma not_d_lt_iff: "\<not> is_nan a \<Longrightarrow> \<not> is_nan b \<Longrightarrow> \<not> d_lt a b \<longleftrightarrow> d_le b a"
  by (auto simp: d_le_def d_lt_def)










subsection \<open>The scans for the greatest and the least element\<close>










subsection \<open>What the loops over the dimensions compute\<close>






subsection \<open>The result of the slab method\<close>






subsection \<open>Evaluation on given inputs\<close>








end
